theory Spec2Isabelle
  imports Complex_Main "HOL-Library.Word" "HOL-Library.FSet" "HOL-Library.Sublist"
begin

section \<open>FlickrScraper: the response handler and the exploration loop\<close>

text \<open>
  The development embeds \<^verbatim>\<open>flickrscraper.py\<close>: the class \<^verbatim>\<open>ResponseHandler\<close>
  (the callback registered for every response of the page) and the loop of
  \<^verbatim>\<open>main\<close>. The libraries the code calls (hashlib, PIL, numpy's generator, the
  playwright page, the logger) are not part of the repository; they enter as parameters,
  and every exception they can raise is a value of \<open>py_error\<close>. Reading an attribute
  (\<^verbatim>\<open>request.method\<close>, \<^verbatim>\<open>response.headers\<close>, \<^verbatim>\<open>image.size\<close>) and the operations on
  strings, integers and the set are taken not to raise.
\<close>

subsection \<open>Data\<close>

type_synonym byte = "8 word"

type_synonym bytes = "byte list"

text \<open>The exceptions of the collaborators that the code can meet.\<close>

datatype py_error =
    TimeoutError            \<comment> \<open>playwright: a wait or a navigation ran out of time\<close>
  | PlaywrightError         \<comment> \<open>playwright: any other failure of a page or response call\<close>
  | UnidentifiedImageError  \<comment> \<open>PIL: \<^verbatim>\<open>Image.open\<close> cannot identify the bytes as an image\<close>
  | OSError                 \<comment> \<open>PIL, the file system, the log stream: decoding or writing failed\<close>
  | ValueError              \<comment> \<open>numpy: \<^verbatim>\<open>default_rng\<close> refuses the seed\<close>

text \<open>
  A \<^verbatim>\<open>Path\<close> object: the path given as text, or a path extended by \<^verbatim>\<open>/\<close> with one
  more name.
\<close>

datatype path = Path string | PathJoin path string

text \<open>
  What \<^verbatim>\<open>__call__\<close> reads of a playwright \<^verbatim>\<open>Response\<close>: \<^verbatim>\<open>response.request.method\<close>,
  \<^verbatim>\<open>response.request.url\<close>, the dictionary \<^verbatim>\<open>response.headers\<close>, and what
  \<^verbatim>\<open>response.body()\<close> gives when it is called: the bytes, or an exception.
\<close>

record response =
  req_method :: string
  req_url :: string
  headers :: "string \<rightharpoonup> string"
  body :: "py_error + bytes"

text \<open>
  The libraries of the handler: \<^verbatim>\<open>self.logger.info(line)\<close>, which writes the line to
  its streams or raises; \<^verbatim>\<open>sha256(data).hexdigest()\<close>,
  \<^verbatim>\<open>Image.open(BytesIO(data))\<close>, \<^verbatim>\<open>image.size\<close> (width, height) and
  \<^verbatim>\<open>image.save(path)\<close>, which encodes the image and leaves the encoded bytes in the
  file, or raises; what a call that raises leaves at the path (nothing, or a file with
  some content) is the library's, and is part of its result here.
\<close>

record 'img libs =
  sha256_hexdigest :: "bytes \<Rightarrow> string"
  image_open :: "bytes \<Rightarrow> py_error + 'img"
  image_size :: "'img \<Rightarrow> int \<times> int"
  image_save :: "'img \<Rightarrow> (py_error \<times> bytes option) + bytes"
  logger_info :: "string \<Rightarrow> py_error option"

text \<open>
  The object \<^verbatim>\<open>ResponseHandler\<close>: the directory, the two bounds and the set of
  hashes; of \<^verbatim>\<open>self.logger\<close>, the lines the handler has logged (by calls that
  returned), in order. With it, what
  its calls leave outside the object: the files written, in order, and the number of
  calls of \<^verbatim>\<open>response.body()\<close>.
\<close>

record response_handler =
  save_directory :: path
  min_image_size :: int
  max_image_size :: int
  scraped_image_hashes :: "string fset"
  logged :: "string list"
  written :: "(path \<times> bytes) list"
  body_reads :: nat

subsection \<open>\<^verbatim>\<open>ResponseHandler\<close>\<close>

definition init_handler :: "path \<Rightarrow> int \<Rightarrow> int \<Rightarrow> response_handler" where
  "init_handler dir mn mx =
     \<lparr>save_directory = dir, min_image_size = mn, max_image_size = mx,
      scraped_image_hashes = {||}, logged = [], written = [], body_reads = 0\<rparr>"

definition scrape_counter :: "response_handler \<Rightarrow> nat" where
  "scrape_counter h = fcard (scraped_image_hashes h)"

text \<open>
  \<^verbatim>\<open>re.match(r"https://live.staticflickr.com/.*", url)\<close>: the match is anchored at the
  start of the url only; an unescaped dot stands for any character but a newline; the
  final \<^verbatim>\<open>.*\<close> also matches the empty string. So the url matches when its first 30
  characters fit the pattern before \<^verbatim>\<open>.*\<close>.
\<close>

datatype atom = Chr char | AnyChr

fun atom_of :: "char \<Rightarrow> atom" where
  "atom_of c = (if c = CHR ''.'' then AnyChr else Chr c)"

definition pattern :: "atom list" where
  "pattern = map atom_of ''https://live.staticflickr.com/''"

fun re_match :: "atom list \<Rightarrow> string \<Rightarrow> bool" where
  "re_match [] s = True"
| "re_match (a # as) [] = False"
| "re_match (Chr c # as) (x # xs) = (x = c \<and> re_match as xs)"
| "re_match (AnyChr # as) (x # xs) = (x \<noteq> CHR 0x0A \<and> re_match as xs)"

text \<open>\<^verbatim>\<open>s.split(c)\<close> (never empty) and \<^verbatim>\<open>request.url.split('/')[-1]\<close>.\<close>

fun split_on :: "char \<Rightarrow> string \<Rightarrow> string list" where
  "split_on c [] = [[]]"
| "split_on c (x # xs) =
     (if x = c then [] # split_on c xs
      else (case split_on c xs of w # ws \<Rightarrow> (x # w) # ws | [] \<Rightarrow> [[x]]))"

definition url_basename :: "string \<Rightarrow> string" where
  "url_basename url = last (split_on CHR ''/'' url)"

text \<open>The line \<^verbatim>\<open>f"Saved {request.url.split('/')[-1]} as {file_name}"\<close>.\<close>

definition saved_line :: "string \<Rightarrow> string \<Rightarrow> string" where
  "saved_line url file_name = ''Saved '' @ url_basename url @ '' as '' @ file_name"

text \<open>
  \<^verbatim>\<open>ResponseHandler.__call__\<close>. The result is the exception that leaves the call, if any,
  and the handler afterwards. The size test is the source's
  \<^verbatim>\<open>min(image.size) >= self.min_image_size and max(image.size) <= self.max_image_size\<close>.
  After the test the source saves the image, then logs the line, then adds the hash: an
  exception of \<^verbatim>\<open>image.save\<close> leaves the call before the line and the hash, one of
  \<^verbatim>\<open>self.logger.info\<close> leaves it with the file written and the hash not added.
\<close>

definition size_in_range :: "response_handler \<Rightarrow> int \<times> int \<Rightarrow> bool" where
  "size_in_range h sz \<longleftrightarrow>
     min (fst sz) (snd sz) \<ge> min_image_size h \<and> max (fst sz) (snd sz) \<le> max_image_size h"

definition call :: "'img libs \<Rightarrow> response \<Rightarrow> response_handler \<Rightarrow> py_error option \<times> response_handler" where
  "call L r h =
     (if req_method r = ''GET'' \<and> re_match pattern (req_url r) then
        if headers r ''content-type'' = Some ''image/jpeg'' then
          (let h1 = h\<lparr>body_reads := Suc (body_reads h)\<rparr> in
           (case body r of
              Inl e \<Rightarrow> (Some e, h1)
            | Inr image_data \<Rightarrow>
               (let image_hash = sha256_hexdigest L image_data in
                if image_hash |\<notin>| scraped_image_hashes h1 then
                  (let file_name = image_hash @ ''.jpg'' in
                   (case image_open L image_data of
                      Inl e \<Rightarrow> (Some e, h1)
                    | Inr img \<Rightarrow>
                       if size_in_range h1 (image_size L img) then
                         (case image_save L img of
                            Inl (e, left) \<Rightarrow>
                             (Some e,
                              h1\<lparr>written := written h1 @
                                    (case left of
                                       None \<Rightarrow> []
                                     | Some b \<Rightarrow> [(PathJoin (save_directory h1) file_name, b)])\<rparr>)
                          | Inr encoded \<Rightarrow>
                             (let h2 = h1\<lparr>written := written h1 @
                                         [(PathJoin (save_directory h1) file_name, encoded)]\<rparr>;
                                  line = saved_line (req_url r) file_name in
                              (case logger_info L line of
                                 Some e \<Rightarrow> (Some e, h2)
                               | None \<Rightarrow>
                                  (None,
                                   h2\<lparr>logged := logged h2 @ [line],
                                      scraped_image_hashes :=
                                        finsert image_hash (scraped_image_hashes h2)\<rparr>))))
                       else (None, h1)))
                else (None, h1))))
        else (None, h)
      else (None, h))"

text \<open>
  The responses of one stretch of the session, handed to the handler one after the other.
  What the browser does with an exception that leaves the handler is the browser's; here
  the later responses are still delivered, and the calls of the page may raise on their
  own (see \<open>page_call\<close> below), which covers a browser that gives the exception back.
\<close>

definition deliver :: "'img libs \<Rightarrow> response list \<Rightarrow> response_handler \<Rightarrow> response_handler" where
  "deliver L rs h = fold (\<lambda>r h. snd (call L r h)) rs h"

subsection \<open>\<^verbatim>\<open>main\<close>: its arguments, the generator and the page\<close>

text \<open>The parameters of \<^verbatim>\<open>main\<close> (typer reads them from the command line).\<close>

record args =
  query :: string
  number_of_images :: int
  patience :: int
  timeout_seconds :: int
  root_directory :: string
  seed :: int
  min_image_size_arg :: int
  max_image_size_arg :: int
  headless :: bool

text \<open>
  numpy's generator: \<^verbatim>\<open>np.random.default_rng(seed)\<close> makes its state from the seed;
  \<^verbatim>\<open>rng.random()\<close> and \<^verbatim>\<open>rng.integers(lo, hi)\<close> give a value and move the state on.
\<close>

record 'g generator =
  default_rng :: "int \<Rightarrow> 'g"
  rng_random :: "'g \<Rightarrow> real \<times> 'g"
  rng_integers :: "int \<Rightarrow> int \<Rightarrow> 'g \<Rightarrow> int \<times> 'g"

text \<open>
  The calls that \<^verbatim>\<open>main\<close> makes and that can raise. \<open>Startup\<close> stands for all that comes
  before \<^verbatim>\<open>page.goto\<close> (making the directory, \<^verbatim>\<open>default_rng\<close>, which refuses a negative
  seed, the logger and its first lines, the launch of the browser). Then the calls of
  the playwright page, and the calls of the logger in the loop, named by what they
  announce. While a call of the page runs, the browser hands responses to the handler;
  a call of the logger hands it none. What happens in a call is given from outside, call
  by call: the responses that arrive during it, the exception it ends with (if any), and
  for \<^verbatim>\<open>query_selector\<close> whether the button \<^verbatim>\<open>Load more results\<close> is there. The timeout
  passed to \<^verbatim>\<open>goto\<close> and \<^verbatim>\<open>wait_for_load_state\<close> (\<^verbatim>\<open>timeout_seconds * 1000\<close>) shows only
  in whether they raise \<open>TimeoutError\<close>.
\<close>

datatype page_method =
    Startup | Goto
  | LogWaiting | WaitForLoadState
  | LogScrolling | Evaluate
  | QuerySelector
  | LogClicking | Click
  | LogSleeping | WaitForTimeout
  | LogPatience

record page_events =
  arrivals :: "page_method \<Rightarrow> response list"
  raises :: "page_method \<Rightarrow> py_error option"
  load_more :: bool

text \<open>What the loop makes the page do, in order.\<close>

datatype action = ScrollDown | ScrollUp | ClickLoadMore | Sleep int

text \<open>
  The variables of the loop: the handler, the generator, \<^verbatim>\<open>patience_counter\<close>; and, to
  state properties, the number of iterations completed and the actions performed.
\<close>

record 'g loop_state =
  handler :: response_handler
  rng :: 'g
  patience_counter :: int
  iterations :: nat
  actions :: "action list"

text \<open>
  A call of the page, and a call of the logger. A call that raises gives the exception
  and the state in which it leaves \<^verbatim>\<open>main\<close>.
\<close>

definition page_call :: "'img libs \<Rightarrow> page_events \<Rightarrow> page_method \<Rightarrow> 'g loop_state \<Rightarrow> (py_error \<times> 'g loop_state) + 'g loop_state" where
  "page_call L ev m st =
     (let st' = st\<lparr>handler := deliver L (arrivals ev m) (handler st)\<rparr> in
      case raises ev m of Some e \<Rightarrow> Inl (e, st') | None \<Rightarrow> Inr st')"

definition logger_call :: "page_events \<Rightarrow> page_method \<Rightarrow> 'g loop_state \<Rightarrow> (py_error \<times> 'g loop_state) + 'g loop_state" where
  "logger_call ev m st = (case raises ev m of Some e \<Rightarrow> Inl (e, st) | None \<Rightarrow> Inr st)"

text \<open>
  The last line of the loop body:
  \<^verbatim>\<open>done = (response_handler.scrape_counter >= number_of_images) or (patience_counter >= patience)\<close>.
\<close>

definition is_done :: "args \<Rightarrow> 'g loop_state \<Rightarrow> bool" where
  "is_done a st \<longleftrightarrow>
     int (scrape_counter (handler st)) \<ge> number_of_images a \<or> patience_counter st \<ge> patience a"

text \<open>
  One pass through the body of \<^verbatim>\<open>while not done\<close>, up to the assignment of \<^verbatim>\<open>done\<close>,
  line by line: every \<^verbatim>\<open>logger.debug\<close> or \<^verbatim>\<open>logger.info\<close> comes before the call of the
  page that it announces; the patience counter is logged only when it is incremented.
\<close>

definition iteration :: "'img libs \<Rightarrow> 'g generator \<Rightarrow> page_events \<Rightarrow> 'g loop_state \<Rightarrow> (py_error \<times> 'g loop_state) + 'g loop_state" where
  "iteration L G ev st =
     (let current_scrape_counter = scrape_counter (handler st) in
      (case logger_call ev LogWaiting st of
         Inl x \<Rightarrow> Inl x
       | Inr st0 \<Rightarrow>
      (case page_call L ev WaitForLoadState st0 of
         Inl x \<Rightarrow> Inl x
       | Inr st1 \<Rightarrow>
          (let (u, g1) = rng_random G (rng st1);
               scroll = (if u < 0.75 then ScrollDown else ScrollUp) in
           (case logger_call ev LogScrolling (st1\<lparr>rng := g1\<rparr>) of
              Inl x \<Rightarrow> Inl x
            | Inr st1' \<Rightarrow>
           (case page_call L ev Evaluate st1' of
              Inl x \<Rightarrow> Inl x
            | Inr st2 \<Rightarrow>
               (case page_call L ev QuerySelector (st2\<lparr>actions := actions st2 @ [scroll]\<rparr>) of
                  Inl x \<Rightarrow> Inl x
                | Inr st3 \<Rightarrow>
                   (case (if load_more ev
                          then (case logger_call ev LogClicking st3 of
                                  Inl x \<Rightarrow> Inl x
                                | Inr st3' \<Rightarrow>
                                   (case page_call L ev Click st3' of
                                      Inl x \<Rightarrow> Inl x
                                    | Inr s \<Rightarrow> Inr (s\<lparr>actions := actions s @ [ClickLoadMore]\<rparr>)))
                          else Inr st3) of
                      Inl x \<Rightarrow> Inl x
                    | Inr st4 \<Rightarrow>
                       (let (sleep_time, g2) = rng_integers G 1000 2000 (rng st4) in
                        (case logger_call ev LogSleeping (st4\<lparr>rng := g2\<rparr>) of
                           Inl x \<Rightarrow> Inl x
                         | Inr st4' \<Rightarrow>
                        (case page_call L ev WaitForTimeout st4' of
                           Inl x \<Rightarrow> Inl x
                         | Inr st5 \<Rightarrow>
                            (let this_loop_scrapes =
                                   int (scrape_counter (handler st5)) - int current_scrape_counter;
                                 st6 = st5\<lparr>actions := actions st5 @ [Sleep sleep_time]\<rparr> in
                             (case (if this_loop_scrapes = 0
                                    then logger_call ev LogPatience
                                           (st6\<lparr>patience_counter := patience_counter st6 + 1\<rparr>)
                                    else Inr (st6\<lparr>patience_counter := 0\<rparr>)) of
                                Inl x \<Rightarrow> Inl x
                              | Inr st7 \<Rightarrow>
                                 Inr (st7\<lparr>iterations := Suc (iterations st7)\<rparr>))))))))))))))"

text \<open>
  The responses that reach the handler during one completed pass, in the order of the
  calls of the page (\<^verbatim>\<open>click\<close> is called only when the button is there).
\<close>

definition iteration_responses :: "page_events \<Rightarrow> response list" where
  "iteration_responses ev =
     arrivals ev WaitForLoadState @ arrivals ev Evaluate @ arrivals ev QuerySelector @
     (if load_more ev then arrivals ev Click else []) @ arrivals ev WaitForTimeout"

text \<open>
  Facts for the termination of the loop: the handler never forgets a hash, so the counter
  never goes down; and what a completed pass leaves in the state.
\<close>

lemma call_hashes_mono: "scraped_image_hashes h |\<subseteq>| scraped_image_hashes (snd (call L r h))"
  by (auto simp: call_def Let_def split: sum.splits option.splits prod.splits)

lemma deliver_hashes_mono: "scraped_image_hashes h |\<subseteq>| scraped_image_hashes (deliver L rs h)"
proof -
  have "scraped_image_hashes h |\<subseteq>| scraped_image_hashes (fold (\<lambda>r h. snd (call L r h)) rs h)"
  proof (induction rs arbitrary: h)
    case Nil
    show ?case by simp
  next
    case (Cons r rs)
    have "scraped_image_hashes h |\<subseteq>| scraped_image_hashes (snd (call L r h))"
      by (rule call_hashes_mono)
    also have "\<dots> |\<subseteq>| scraped_image_hashes (fold (\<lambda>r h. snd (call L r h)) rs (snd (call L r h)))"
      by (rule Cons.IH)
    finally show ?case by simp
  qed
  then show ?thesis by (simp add: deliver_def)
qed

lemma deliver_counter_mono: "scrape_counter h \<le> scrape_counter (deliver L rs h)"
  unfolding scrape_counter_def by (rule fcard_mono) (rule deliver_hashes_mono)

lemma page_call_Inr:
  "page_call L ev m st = Inr st' \<longleftrightarrow>
     raises ev m = None \<and> st' = st\<lparr>handler := deliver L (arrivals ev m) (handler st)\<rparr>"
  by (auto simp: page_call_def Let_def split: option.splits)

lemma deliver_append: "deliver L (rs @ rs') h = deliver L rs' (deliver L rs h)"
  by (simp add: deliver_def)

lemma deliver_Nil: "deliver L [] h = h"
  by (simp add: deliver_def)

lemma page_call_Inl:
  "page_call L ev m st = Inl x \<longleftrightarrow>
     (\<exists>e. raises ev m = Some e \<and>
          x = (e, st\<lparr>handler := deliver L (arrivals ev m) (handler st)\<rparr>))"
  by (auto simp: page_call_def Let_def split: option.splits)

lemma logger_call_Inr: "logger_call ev m st = Inr st' \<longleftrightarrow> raises ev m = None \<and> st' = st"
  by (auto simp: logger_call_def split: option.splits)

lemma logger_call_Inl: "logger_call ev m st = Inl x \<longleftrightarrow> (\<exists>e. raises ev m = Some e \<and> x = (e, st))"
  by (auto simp: logger_call_def split: option.splits)

lemma iteration_Inr:
  assumes "iteration L G ev st = Inr st'"
  shows "handler st' = deliver L (iteration_responses ev) (handler st)"
    and "patience_counter st' =
       (if scrape_counter (handler st') = scrape_counter (handler st)
        then patience_counter st + 1 else 0)"
    and "iterations st' = Suc (iterations st)"
  using assms unfolding iteration_def Let_def iteration_responses_def
  by (auto split: sum.splits prod.splits if_splits
        simp: page_call_Inr logger_call_Inr deliver_append deliver_Nil)

text \<open>
  \<^verbatim>\<open>done = False; while not done: ...\<close>: the body runs, then \<^verbatim>\<open>done\<close> is assigned and
  tested. An exception of a call leaves the loop (the source has no \<^verbatim>\<open>try\<close>). What
  happens in the pass after \<open>i\<close> completed passes is \<open>sc i\<close>.
\<close>

function loop :: "'img libs \<Rightarrow> 'g generator \<Rightarrow> args \<Rightarrow> (nat \<Rightarrow> page_events) \<Rightarrow> 'g loop_state \<Rightarrow> (py_error \<times> 'g loop_state) + 'g loop_state" where
  "loop L G a sc st =
     (case iteration L G (sc (iterations st)) st of
        Inl x \<Rightarrow> Inl x
      | Inr st' \<Rightarrow> if is_done a st' then Inr st' else loop L G a sc st')"
  by pat_completeness auto
termination
proof (relation "measures
    [\<lambda>(L, G, a, sc, st). nat (number_of_images a - int (scrape_counter (handler st))),
     \<lambda>(L, G, a, sc, st). nat (patience a - patience_counter st)]")
  show "wf (measures
    [\<lambda>(L, G, a, sc, st). nat (number_of_images a - int (scrape_counter (handler st))),
     \<lambda>(L, G, a, sc, st). nat (patience a - patience_counter st)])"
    by simp
next
  fix L :: "'a libs" and G :: "'b generator" and a sc and st st' :: "'b loop_state"
  assume it: "iteration L G (sc (iterations st)) st = Inr st'" and nd: "\<not> is_done a st'"
  note f = iteration_Inr [OF it]
  have "scrape_counter (handler st) \<le> scrape_counter (handler st')"
    by (simp add: f(1) deliver_counter_mono)
  then show "((L, G, a, sc, st'), (L, G, a, sc, st)) \<in> measures
    [\<lambda>(L, G, a, sc, st). nat (number_of_images a - int (scrape_counter (handler st))),
     \<lambda>(L, G, a, sc, st). nat (patience a - patience_counter st)]"
    using f(2) nd by (auto simp: is_done_def split: if_splits)
qed

declare loop.simps [simp del]

text \<open>
  \<^verbatim>\<open>main\<close> up to the end of the loop: the generator is seeded, the handler is made with
  an empty set of hashes and registered, the page is sent to the search url, and the loop
  runs; \<open>nav\<close> says what happens before the loop (whether anything before \<^verbatim>\<open>page.goto\<close>
  raises, and what happens during \<^verbatim>\<open>page.goto\<close>). A result \<open>Inr\<close> is the state in which
  \<^verbatim>\<open>browser.close()\<close> is reached.
\<close>

definition main :: "'img libs \<Rightarrow> 'g generator \<Rightarrow> args \<Rightarrow> page_events \<Rightarrow> (nat \<Rightarrow> page_events) \<Rightarrow> (py_error \<times> 'g loop_state) + 'g loop_state" where
  "main L G a nav sc =
     (let directory = PathJoin (Path (root_directory a)) (query a);
          g = default_rng G (seed a);
          response_handler = init_handler directory (min_image_size_arg a) (max_image_size_arg a)
      in (case logger_call nav Startup
                 \<lparr>handler = response_handler, rng = g, patience_counter = 0,
                  iterations = 0, actions = []\<rparr> of
            Inl x \<Rightarrow> Inl x
          | Inr st0 \<Rightarrow>
             (case page_call L nav Goto st0 of
                Inl x \<Rightarrow> Inl x
              | Inr st \<Rightarrow> loop L G a sc st)))"

subsection \<open>Notions used to state the properties\<close>

text \<open>A response is admitted when the call returns and has written a file.\<close>

definition admits :: "'img libs \<Rightarrow> response \<Rightarrow> response_handler \<Rightarrow> bool" where
  "admits L r h \<longleftrightarrow>
     fst (call L r h) = None \<and> length (written (snd (call L r h))) = Suc (length (written h))"

text \<open>The three tests made before \<^verbatim>\<open>response.body()\<close> is called.\<close>

definition passes_gate :: "response \<Rightarrow> bool" where
  "passes_gate r \<longleftrightarrow>
     req_method r = ''GET'' \<and> re_match pattern (req_url r) \<and>
     headers r ''content-type'' = Some ''image/jpeg''"

text \<open>
  The handler after \<open>n\<close> further completed passes of the loop, the first of them being
  pass number \<open>k\<close>.
\<close>

fun handler_after :: "'img libs \<Rightarrow> (nat \<Rightarrow> page_events) \<Rightarrow> nat \<Rightarrow> nat \<Rightarrow> response_handler \<Rightarrow> response_handler" where
  "handler_after L sc k 0 h = h"
| "handler_after L sc k (Suc n) h =
     handler_after L sc (Suc k) n (deliver L (iteration_responses (sc k)) h)"

text \<open>The scroll directions and the pauses among the actions of a run.\<close>

fun scroll_choices :: "action list \<Rightarrow> action list" where
  "scroll_choices [] = []"
| "scroll_choices (ScrollDown # as) = ScrollDown # scroll_choices as"
| "scroll_choices (ScrollUp # as) = ScrollUp # scroll_choices as"
| "scroll_choices (x # as) = scroll_choices as"

fun pause_durations :: "action list \<Rightarrow> int list" where
  "pause_durations [] = []"
| "pause_durations (Sleep t # as) = t # pause_durations as"
| "pause_durations (x # as) = pause_durations as"

text \<open>
  What the generator alone fixes: from state \<open>g\<close>, the scroll direction and the pause of
  each of the next \<open>n\<close> passes (one call of \<^verbatim>\<open>random\<close>, then one of \<^verbatim>\<open>integers\<close>).
\<close>

fun draws :: "'g generator \<Rightarrow> 'g \<Rightarrow> nat \<Rightarrow> (action \<times> int) list" where
  "draws G g 0 = []"
| "draws G g (Suc n) =
     (let (u, g1) = rng_random G g;
          (t, g2) = rng_integers G 1000 2000 g1
      in ((if u < 0.75 then ScrollDown else ScrollUp), t) # draws G g2 n)"

text \<open>
  No progress from the state \<open>st\<close> on: whatever number of further passes the loop
  completes, the counter is where it was. And a run in which no call (of the page or of
  the logger) ever raises.
\<close>

definition no_progress :: "'img libs \<Rightarrow> (nat \<Rightarrow> page_events) \<Rightarrow> 'g loop_state \<Rightarrow> bool" where
  "no_progress L sc st \<longleftrightarrow>
     (\<forall>n. scrape_counter (handler_after L sc (iterations st) n (handler st)) =
          scrape_counter (handler st))"

definition never_raises :: "(nat \<Rightarrow> page_events) \<Rightarrow> bool" where
  "never_raises sc \<longleftrightarrow> (\<forall>i m. raises (sc i) m = None)"

text \<open>The files that a call of \<^verbatim>\<open>image.save\<close> which raised has left at \<open>p\<close>.\<close>

definition leftover :: "path \<Rightarrow> bytes option \<Rightarrow> (path \<times> bytes) list" where
  "leftover p left = (case left of None \<Rightarrow> [] | Some b \<Rightarrow> [(p, b)])"

text \<open>
  The paths of \<^verbatim>\<open>__call__\<close> on which a call of a library raises \<open>e\<close>:
  \<^verbatim>\<open>response.body()\<close>; \<^verbatim>\<open>Image.open\<close>, for a hash not seen before; \<^verbatim>\<open>image.save\<close>, for a
  size in range; \<^verbatim>\<open>self.logger.info\<close>, after a save that returned.
\<close>

definition raising_path :: "'img libs \<Rightarrow> response \<Rightarrow> response_handler \<Rightarrow> py_error \<Rightarrow> bool" where
  "raising_path L r h e \<longleftrightarrow>
     passes_gate r \<and>
     (case body r of
        Inl e' \<Rightarrow> e' = e
      | Inr d \<Rightarrow>
          sha256_hexdigest L d |\<notin>| scraped_image_hashes h \<and>
          (case image_open L d of
             Inl e' \<Rightarrow> e' = e
           | Inr img \<Rightarrow>
               size_in_range h (image_size L img) \<and>
               (case image_save L img of
                  Inl (e', left) \<Rightarrow> e' = e
                | Inr enc \<Rightarrow>
                    logger_info L (saved_line (req_url r) (sha256_hexdigest L d @ ''.jpg'')) =
                      Some e)))"

subsection \<open>A small instance, to evaluate the definitions on\<close>

text \<open>
  Stand-ins for the libraries, small enough to compute with. An image file is a width
  byte, a height byte and the pixels, one byte each; opening reads the two bytes only (as
  \<^verbatim>\<open>Image.open\<close> reads the header only); saving encodes the pixels the size asks for, so
  it fails on a file cut short and drops what follows the last pixel. The digest writes
  every byte as two hexadecimal digits. The logger takes every line.
\<close>

type_synonym toy_image = "(int \<times> int) \<times> bytes"

definition hex_digit :: "nat \<Rightarrow> char" where
  "hex_digit n = ''0123456789abcdef'' ! (n mod 16)"

definition toy_hexdigest :: "bytes \<Rightarrow> string" where
  "toy_hexdigest d = concat (map (\<lambda>b. [hex_digit (unat b div 16), hex_digit (unat b)]) d)"

fun toy_open :: "bytes \<Rightarrow> py_error + toy_image" where
  "toy_open (w # h # px) = Inr ((uint w, uint h), px)"
| "toy_open d = Inl UnidentifiedImageError"

definition toy_save :: "toy_image \<Rightarrow> (py_error \<times> bytes option) + bytes" where
  "toy_save img =
     (let n = nat (fst (fst img) * snd (fst img)) in
      if length (snd img) < n then Inl (OSError, None)
      else Inr (word_of_int (fst (fst img)) # word_of_int (snd (fst img)) # take n (snd img)))"

definition toy_libs :: "toy_image libs" where
  "toy_libs = \<lparr>sha256_hexdigest = toy_hexdigest, image_open = toy_open,
                image_size = fst, image_save = toy_save, logger_info = (\<lambda>line. None)\<rparr>"

text \<open>The same with a logger whose stream is closed: every line raises.\<close>

definition closed_log_libs :: "toy_image libs" where
  "closed_log_libs = toy_libs\<lparr>logger_info := (\<lambda>line. Some OSError)\<rparr>"

text \<open>A handler that accepts sides from 1 to 4, and one whose bounds are the wrong way round.\<close>

definition toy_handler :: response_handler where
  "toy_handler = init_handler (PathJoin (Path ''flickr_images'') ''cats'') 1 4"

definition inverted_handler :: response_handler where
  "inverted_handler = init_handler (PathJoin (Path ''flickr_images'') ''cats'') 3 2"

text \<open>A response that passes the three tests, with the body \<open>d\<close>.\<close>

definition jpeg_response :: "bytes \<Rightarrow> response" where
  "jpeg_response d =
     \<lparr>req_method = ''GET'', req_url = ''https://live.staticflickr.com/65535/1_a.jpg'',
      headers = [''content-type'' \<mapsto> ''image/jpeg''], body = Inr d\<rparr>"

text \<open>
  A generator of sixteen states; the arguments of \<^verbatim>\<open>main\<close> with a target \<open>n\<close> and a
  patience \<open>p\<close>; a page on which nothing happens, one whose wait for the network always
  times out, and one that delivers an image during every call and always shows the
  button; the state in which the loop is entered when nothing arrived during \<^verbatim>\<open>goto\<close>.
\<close>

definition toy_generator :: "nat generator" where
  "toy_generator =
     \<lparr>default_rng = (\<lambda>s. nat s mod 16),
      rng_random = (\<lambda>g. (real g / 16, (5 * g + 3) mod 16)),
      rng_integers = (\<lambda>lo hi g. (lo + (61 * int g) mod (hi - lo), (5 * g + 3) mod 16))\<rparr>"

definition toy_args :: "int \<Rightarrow> int \<Rightarrow> args" where
  "toy_args n p =
     \<lparr>query = ''cats'', number_of_images = n, patience = p, timeout_seconds = 60,
      root_directory = ''flickr_images'', seed = 42, min_image_size_arg = 1,
      max_image_size_arg = 4, headless = True\<rparr>"

definition quiet_page :: page_events where
  "quiet_page = \<lparr>arrivals = (\<lambda>m. []), raises = (\<lambda>m. None), load_more = False\<rparr>"

definition quiet_script :: "nat \<Rightarrow> page_events" where
  "quiet_script i = quiet_page"

definition stalled_page :: page_events where
  "stalled_page = quiet_page\<lparr>raises := [WaitForLoadState \<mapsto> TimeoutError]\<rparr>"

definition stalled_script :: "nat \<Rightarrow> page_events" where
  "stalled_script i = stalled_page"

definition busy_page :: page_events where
  "busy_page = \<lparr>arrivals = (\<lambda>m. [jpeg_response [2, 1, 7, 8]]), raises = (\<lambda>m. None), load_more = True\<rparr>"

definition busy_script :: "nat \<Rightarrow> page_events" where
  "busy_script i = busy_page"

definition toy_start :: "nat loop_state" where
  "toy_start =
     \<lparr>handler = toy_handler, rng = default_rng toy_generator 42, patience_counter = 0,
      iterations = 0, actions = []\<rparr>"

lemmas toy_defs = toy_libs_def toy_handler_def jpeg_response_def
  init_handler_def pattern_def toy_hexdigest_def hex_digit_def toy_save_def size_in_range_def
  url_basename_def saved_line_def Let_def

section \<open>Properties of the handler\<close>

subsection \<open>The paths of \<^verbatim>\<open>__call__\<close>, one by one\<close>

lemma size_in_range_body_reads [simp]:
  "size_in_range (h\<lparr>body_reads := n\<rparr>) sz = size_in_range h sz"
  by (simp add: size_in_range_def)

lemma call_gate_closed: "\<not> passes_gate r \<Longrightarrow> call L r h = (None, h)"
  by (auto simp: call_def passes_gate_def)

lemma call_body_raises:
  "passes_gate r \<Longrightarrow> body r = Inl e \<Longrightarrow>
     call L r h = (Some e, h\<lparr>body_reads := Suc (body_reads h)\<rparr>)"
  by (simp add: call_def passes_gate_def Let_def)

lemma call_duplicate:
  "passes_gate r \<Longrightarrow> body r = Inr d \<Longrightarrow> sha256_hexdigest L d |\<in>| scraped_image_hashes h \<Longrightarrow>
     call L r h = (None, h\<lparr>body_reads := Suc (body_reads h)\<rparr>)"
  by (simp add: call_def passes_gate_def Let_def)

lemma call_open_raises:
  "passes_gate r \<Longrightarrow> body r = Inr d \<Longrightarrow> sha256_hexdigest L d |\<notin>| scraped_image_hashes h \<Longrightarrow>
     image_open L d = Inl e \<Longrightarrow> call L r h = (Some e, h\<lparr>body_reads := Suc (body_reads h)\<rparr>)"
  by (simp add: call_def passes_gate_def Let_def)

lemma call_out_of_range:
  "passes_gate r \<Longrightarrow> body r = Inr d \<Longrightarrow> sha256_hexdigest L d |\<notin>| scraped_image_hashes h \<Longrightarrow>
     image_open L d = Inr img \<Longrightarrow> \<not> size_in_range h (image_size L img) \<Longrightarrow>
     call L r h = (None, h\<lparr>body_reads := Suc (body_reads h)\<rparr>)"
  by (simp add: call_def passes_gate_def Let_def)

lemma call_save_raises:
  "passes_gate r \<Longrightarrow> body r = Inr d \<Longrightarrow> sha256_hexdigest L d |\<notin>| scraped_image_hashes h \<Longrightarrow>
     image_open L d = Inr img \<Longrightarrow> size_in_range h (image_size L img) \<Longrightarrow>
     image_save L img = Inl (e, left) \<Longrightarrow>
     call L r h =
       (Some e,
        h\<lparr>body_reads := Suc (body_reads h),
          written := written h @
            leftover (PathJoin (save_directory h) (sha256_hexdigest L d @ ''.jpg'')) left\<rparr>)"
  by (simp add: call_def passes_gate_def Let_def leftover_def split: option.splits)

lemma call_log_raises:
  "passes_gate r \<Longrightarrow> body r = Inr d \<Longrightarrow> sha256_hexdigest L d |\<notin>| scraped_image_hashes h \<Longrightarrow>
     image_open L d = Inr img \<Longrightarrow> size_in_range h (image_size L img) \<Longrightarrow>
     image_save L img = Inr enc \<Longrightarrow>
     logger_info L (saved_line (req_url r) (sha256_hexdigest L d @ ''.jpg'')) = Some e \<Longrightarrow>
     call L r h =
       (Some e,
        h\<lparr>body_reads := Suc (body_reads h),
          written := written h @
            [(PathJoin (save_directory h) (sha256_hexdigest L d @ ''.jpg''), enc)]\<rparr>)"
  by (simp add: call_def passes_gate_def Let_def)

lemma call_saved:
  "passes_gate r \<Longrightarrow> body r = Inr d \<Longrightarrow> sha256_hexdigest L d |\<notin>| scraped_image_hashes h \<Longrightarrow>
     image_open L d = Inr img \<Longrightarrow> size_in_range h (image_size L img) \<Longrightarrow>
     image_save L img = Inr enc \<Longrightarrow>
     logger_info L (saved_line (req_url r) (sha256_hexdigest L d @ ''.jpg'')) = None \<Longrightarrow>
     call L r h =
       (None,
        h\<lparr>body_reads := Suc (body_reads h),
          written := written h @ [(PathJoin (save_directory h) (sha256_hexdigest L d @ ''.jpg''), enc)],
          logged := logged h @ [saved_line (req_url r) (sha256_hexdigest L d @ ''.jpg'')],
          scraped_image_hashes := finsert (sha256_hexdigest L d) (scraped_image_hashes h)\<rparr>)"
  by (simp add: call_def passes_gate_def Let_def)

lemma call_error_iff: "fst (call L r h) = Some e \<longleftrightarrow> raising_path L r h e"
  by (auto simp: call_def raising_path_def passes_gate_def Let_def
        split: sum.splits prod.splits option.splits)

lemma call_error_state:
  assumes "fst (call L r h) = Some e"
  shows "scraped_image_hashes (snd (call L r h)) = scraped_image_hashes h"
    and "logged (snd (call L r h)) = logged h"
    and "written (snd (call L r h)) = written h \<or>
         (\<exists>d img b. body r = Inr d \<and> image_open L d = Inr img \<and>
            (image_save L img = Inl (e, Some b) \<or>
             image_save L img = Inr b \<and>
             logger_info L (saved_line (req_url r) (sha256_hexdigest L d @ ''.jpg'')) = Some e) \<and>
            written (snd (call L r h)) =
              written h @ [(PathJoin (save_directory h) (sha256_hexdigest L d @ ''.jpg''), b)])"
  using assms
  by (auto simp: call_def Let_def split: sum.splits if_splits prod.splits option.splits)

lemma admits_iff:
  "admits L r h \<longleftrightarrow>
     passes_gate r \<and>
     (\<exists>d img enc. body r = Inr d \<and> sha256_hexdigest L d |\<notin>| scraped_image_hashes h \<and>
        image_open L d = Inr img \<and> size_in_range h (image_size L img) \<and>
        image_save L img = Inr enc \<and>
        logger_info L (saved_line (req_url r) (sha256_hexdigest L d @ ''.jpg'')) = None)"
  by (auto simp: admits_def call_def passes_gate_def Let_def
        split: sum.splits prod.splits option.splits)

subsection \<open>Exceptions\<close>

text \<open>
  C1, as the specification states it: no exception leaves the handler, and a body that
  does not decode is logged and dropped. The source has no \<^verbatim>\<open>try\<close>: for a body that
  \<^verbatim>\<open>Image.open\<close> cannot identify, the exception of \<^verbatim>\<open>Image.open\<close> leaves \<^verbatim>\<open>__call__\<close>,
  and nothing is logged.
\<close>

theorem undecodable_body_raises_counterexample:
  "call toy_libs (jpeg_response [2]) toy_handler =
     (Some UnidentifiedImageError, toy_handler\<lparr>body_reads := 1\<rparr>)"
  by (simp add: call_def toy_defs)

text \<open>
  C1, amended: an exception leaves \<^verbatim>\<open>__call__\<close> exactly when \<^verbatim>\<open>response.body()\<close>,
  \<^verbatim>\<open>Image.open\<close>, \<^verbatim>\<open>image.save\<close> or \<^verbatim>\<open>self.logger.info\<close> raises on the path taken (past
  the three tests; for \<^verbatim>\<open>Image.open\<close> with a hash not seen before; for \<^verbatim>\<open>image.save\<close>
  with a size in range; for \<^verbatim>\<open>self.logger.info\<close> after a save that returned). Whenever
  one does, the response is not admitted: no hash is added and no line is logged; a file
  is left only by an \<^verbatim>\<open>image.save\<close> that raised (whatever it leaves) or, complete, when
  it is \<^verbatim>\<open>self.logger.info\<close> that raised. A response stopped by one of the three tests
  returns without any effect.
\<close>

theorem handler_exceptions:
  "(fst (call L r h) = Some e \<longleftrightarrow> raising_path L r h e) \<and>
   (fst (call L r h) = Some e \<longrightarrow>
      scraped_image_hashes (snd (call L r h)) = scraped_image_hashes h \<and>
      logged (snd (call L r h)) = logged h \<and>
      (written (snd (call L r h)) = written h \<or>
       (\<exists>d img b. body r = Inr d \<and> image_open L d = Inr img \<and>
          (image_save L img = Inl (e, Some b) \<or>
           image_save L img = Inr b \<and>
           logger_info L (saved_line (req_url r) (sha256_hexdigest L d @ ''.jpg'')) = Some e) \<and>
          written (snd (call L r h)) =
            written h @ [(PathJoin (save_directory h) (sha256_hexdigest L d @ ''.jpg''), b)]))) \<and>
   (\<not> passes_gate r \<longrightarrow> call L r h = (None, h))"
  using call_error_state [of L r h e] by (simp add: call_error_iff call_gate_closed)

theorem handler_exceptions_witness:
  "raising_path toy_libs (jpeg_response [2]) toy_handler UnidentifiedImageError \<and>
   fst (call toy_libs (jpeg_response [2]) toy_handler) = Some UnidentifiedImageError \<and>
   written (snd (call toy_libs (jpeg_response [2]) toy_handler)) = [] \<and>
   logged (snd (call toy_libs (jpeg_response [2]) toy_handler)) = [] \<and>
   raising_path closed_log_libs (jpeg_response [2, 1, 7, 8]) toy_handler OSError \<and>
   call closed_log_libs (jpeg_response [2, 1, 7, 8]) toy_handler =
     (Some OSError,
      toy_handler\<lparr>body_reads := 1,
        written := [(PathJoin (PathJoin (Path ''flickr_images'') ''cats'') ''02010708.jpg'',
                     [2, 1, 7, 8])]\<rparr>)"
  using handler_exceptions [of toy_libs "jpeg_response [2]" toy_handler UnidentifiedImageError]
    handler_exceptions [of closed_log_libs "jpeg_response [2, 1, 7, 8]" toy_handler OSError]
  by (simp add: call_def closed_log_libs_def toy_defs)

subsection \<open>The file written\<close>

text \<open>
  C2, as the specification states it: the bytes written are the raw bytes of the body. The
  source writes with \<^verbatim>\<open>image.save\<close>, that is what the image library encodes from the
  decoded image; here a body with one byte after the last pixel is admitted and the file
  holds the image without it.
\<close>

theorem raw_bytes_written_counterexample:
  "admits toy_libs (jpeg_response [2, 1, 7, 8, 9]) toy_handler \<and>
   body (jpeg_response [2, 1, 7, 8, 9]) = Inr [2, 1, 7, 8, 9] \<and>
   written (snd (call toy_libs (jpeg_response [2, 1, 7, 8, 9]) toy_handler)) =
     [(PathJoin (PathJoin (Path ''flickr_images'') ''cats'') ''0201070809.jpg'', [2, 1, 7, 8])]"
  by (simp add: admits_def call_def toy_defs)

text \<open>
  C2, amended: for every admitted response, one file is written, in the handler's
  directory, named by the hexadecimal digest of the raw body followed by \<^verbatim>\<open>.jpg\<close>; its
  content is what \<^verbatim>\<open>image.save\<close> encodes from the image that \<^verbatim>\<open>Image.open\<close> made of
  the body.
\<close>

theorem saved_file:
  assumes "admits L r h"
  shows "\<exists>d img enc. body r = Inr d \<and> image_open L d = Inr img \<and> image_save L img = Inr enc \<and>
           written (snd (call L r h)) =
             written h @ [(PathJoin (save_directory h) (sha256_hexdigest L d @ ''.jpg''), enc)]"
proof -
  from assms obtain d img enc where g: "passes_gate r" and b: "body r = Inr d"
    and n: "sha256_hexdigest L d |\<notin>| scraped_image_hashes h"
    and o: "image_open L d = Inr img" and s: "size_in_range h (image_size L img)"
    and e: "image_save L img = Inr enc"
    and l: "logger_info L (saved_line (req_url r) (sha256_hexdigest L d @ ''.jpg'')) = None"
    unfolding admits_iff by blast
  have "written (snd (call L r h)) =
          written h @ [(PathJoin (save_directory h) (sha256_hexdigest L d @ ''.jpg''), enc)]"
    by (simp add: call_saved [OF g b n o s e l])
  with b o e show ?thesis by blast
qed

theorem saved_file_witness:
  "admits toy_libs (jpeg_response [2, 1, 7, 8]) toy_handler \<and>
   (\<exists>d img enc. body (jpeg_response [2, 1, 7, 8]) = Inr d \<and> image_open toy_libs d = Inr img \<and>
      image_save toy_libs img = Inr enc \<and>
      written (snd (call toy_libs (jpeg_response [2, 1, 7, 8]) toy_handler)) =
        written toy_handler @
          [(PathJoin (save_directory toy_handler) (sha256_hexdigest toy_libs d @ ''.jpg''), enc)])"
proof -
  have a: "admits toy_libs (jpeg_response [2, 1, 7, 8]) toy_handler"
    by (simp add: admits_def call_def toy_defs)
  from a saved_file [OF a] show ?thesis by blast
qed

subsection \<open>Duplicates\<close>

lemma call_hash_kept:
  "x |\<in>| scraped_image_hashes h \<Longrightarrow> x |\<in>| scraped_image_hashes (snd (call L r h))"
  using call_hashes_mono [of h L r] by blast

lemma deliver_hash_kept:
  "x |\<in>| scraped_image_hashes h \<Longrightarrow> x |\<in>| scraped_image_hashes (deliver L rs h)"
  using deliver_hashes_mono [of h L rs] by blast

lemma call_known_hash:
  assumes "body r = Inr d" "sha256_hexdigest L d |\<in>| scraped_image_hashes h"
  shows "fst (call L r h) = None \<and> written (snd (call L r h)) = written h \<and>
         logged (snd (call L r h)) = logged h \<and>
         scraped_image_hashes (snd (call L r h)) = scraped_image_hashes h"
proof (cases "passes_gate r")
  case True
  then show ?thesis by (simp add: call_duplicate [OF True assms])
next
  case False
  then show ?thesis by (simp add: call_gate_closed)
qed

lemma admits_counter:
  assumes "admits L r h" "body r = Inr d"
  shows "sha256_hexdigest L d |\<notin>| scraped_image_hashes h"
    and "scraped_image_hashes (snd (call L r h)) = finsert (sha256_hexdigest L d) (scraped_image_hashes h)"
    and "length (written (snd (call L r h))) = Suc (length (written h))"
proof -
  from assms obtain img enc where g: "passes_gate r"
    and n: "sha256_hexdigest L d |\<notin>| scraped_image_hashes h"
    and o: "image_open L d = Inr img" and s: "size_in_range h (image_size L img)"
    and e: "image_save L img = Inr enc"
    and l: "logger_info L (saved_line (req_url r) (sha256_hexdigest L d @ ''.jpg'')) = None"
    unfolding admits_iff by auto
  show "sha256_hexdigest L d |\<notin>| scraped_image_hashes h" by (rule n)
  show "scraped_image_hashes (snd (call L r h)) = finsert (sha256_hexdigest L d) (scraped_image_hashes h)"
    by (simp add: call_saved [OF g assms(2) n o s e l])
  show "length (written (snd (call L r h))) = Suc (length (written h))"
    by (simp add: call_saved [OF g assms(2) n o s e l])
qed

text \<open>
  C3: a body admitted once is admitted once only. When a response with body \<open>d\<close> is
  admitted, the counter goes up by exactly one; and in any later state of the session
  (after any responses \<open>rs\<close>), a response with the same body returns without an
  exception, writes no file and leaves the counter as it is. Fed twice in a row, the
  body makes one file and raises the counter by one.
\<close>

theorem admission_idempotent:
  assumes "admits L r h" and "body r = Inr d" and "body r' = Inr d"
  shows "scrape_counter (snd (call L r h)) = Suc (scrape_counter h) \<and>
         fst (call L r' (deliver L rs (snd (call L r h)))) = None \<and>
         written (snd (call L r' (deliver L rs (snd (call L r h))))) =
           written (deliver L rs (snd (call L r h))) \<and>
         scrape_counter (snd (call L r' (deliver L rs (snd (call L r h))))) =
           scrape_counter (deliver L rs (snd (call L r h))) \<and>
         scrape_counter (deliver L [r, r'] h) = Suc (scrape_counter h) \<and>
         length (written (deliver L [r, r'] h)) = Suc (length (written h))"
proof -
  let ?x = "sha256_hexdigest L d"
  let ?h1 = "snd (call L r h)"
  note a = admits_counter [OF assms(1,2)]
  have c1: "scrape_counter ?h1 = Suc (scrape_counter h)"
    using a(1) by (simp add: scrape_counter_def a(2) fcard_finsert_disjoint)
  have in1: "?x |\<in>| scraped_image_hashes ?h1"
    by (simp add: a(2))
  have later: "fst (call L r' h2) = None \<and> written (snd (call L r' h2)) = written h2 \<and>
      scrape_counter (snd (call L r' h2)) = scrape_counter h2"
    if "?x |\<in>| scraped_image_hashes h2" for h2
    using call_known_hash [OF assms(3) that] by (simp add: scrape_counter_def)
  have l1: "fst (call L r' (deliver L rs ?h1)) = None \<and>
      written (snd (call L r' (deliver L rs ?h1))) = written (deliver L rs ?h1) \<and>
      scrape_counter (snd (call L r' (deliver L rs ?h1))) = scrape_counter (deliver L rs ?h1)"
    by (rule later) (rule deliver_hash_kept [OF in1])
  have two: "deliver L [r, r'] h = snd (call L r' ?h1)"
    by (simp add: deliver_def)
  have l2: "scrape_counter (deliver L [r, r'] h) = Suc (scrape_counter h) \<and>
      length (written (deliver L [r, r'] h)) = Suc (length (written h))"
    using later [OF in1] c1 a(3) by (simp add: two)
  from c1 l1 l2 show ?thesis by simp
qed

theorem admission_idempotent_witness:
  "admits toy_libs (jpeg_response [2, 1, 7, 8]) toy_handler \<and>
   scrape_counter (deliver toy_libs [jpeg_response [2, 1, 7, 8], jpeg_response [2, 1, 7, 8]] toy_handler) = 1 \<and>
   length (written (deliver toy_libs [jpeg_response [2, 1, 7, 8], jpeg_response [2, 1, 7, 8]] toy_handler)) = 1"
proof -
  have a: "admits toy_libs (jpeg_response [2, 1, 7, 8]) toy_handler"
    by (simp add: admits_def call_def toy_defs)
  have b: "body (jpeg_response [2, 1, 7, 8]) = Inr [2, 1, 7, 8]"
    by (simp add: jpeg_response_def)
  have z: "scrape_counter toy_handler = 0" "written toy_handler = []"
    by (simp_all add: scrape_counter_def toy_handler_def init_handler_def)
  from a admission_idempotent [OF a b b, of "[]"] z show ?thesis by simp
qed

subsection \<open>The size test\<close>

text \<open>
  C5, as the specification states it: admission holds exactly when the size is in range,
  and an image of exactly \<open>minSize\<close> by \<open>minSize\<close> is admitted. Three responses that reach
  the size test show otherwise. With a minimum of 3 and a maximum of 2 (nothing orders the
  two arguments) a 3 by 3 image is rejected. With bounds 1 and 4, a 2 by 2 image whose
  file is cut short is in range and is not admitted, because \<^verbatim>\<open>image.save\<close> raises; and a
  2 by 1 image is in range, is saved and is not admitted, because \<^verbatim>\<open>self.logger.info\<close>
  raises before the hash is added.
\<close>

theorem in_range_not_admitted_counterexample:
  "(min_image_size inverted_handler = 3 \<and>
    image_open toy_libs [3, 3, 0, 0, 0, 0, 0, 0, 0, 0, 0] = Inr ((3, 3), [0, 0, 0, 0, 0, 0, 0, 0, 0]) \<and>
    \<not> admits toy_libs (jpeg_response [3, 3, 0, 0, 0, 0, 0, 0, 0, 0, 0]) inverted_handler) \<and>
   (image_open toy_libs [2, 2, 7, 8, 9] = Inr ((2, 2), [7, 8, 9]) \<and>
    size_in_range toy_handler (2, 2) \<and>
    \<not> admits toy_libs (jpeg_response [2, 2, 7, 8, 9]) toy_handler) \<and>
   (image_open closed_log_libs [2, 1, 7, 8] = Inr ((2, 1), [7, 8]) \<and>
    size_in_range toy_handler (2, 1) \<and>
    \<not> admits closed_log_libs (jpeg_response [2, 1, 7, 8]) toy_handler \<and>
    written (snd (call closed_log_libs (jpeg_response [2, 1, 7, 8]) toy_handler)) =
      [(PathJoin (PathJoin (Path ''flickr_images'') ''cats'') ''02010708.jpg'', [2, 1, 7, 8])])"
  by (simp add: admits_def call_def passes_gate_def inverted_handler_def closed_log_libs_def toy_defs)

text \<open>
  C5, amended: for every decoded image (a response that passed the three tests, with a
  hash not seen before, that \<^verbatim>\<open>Image.open\<close> has opened), the response is admitted exactly
  when \<open>min w ht \<ge> min_image_size\<close> and \<open>max w ht \<le> max_image_size\<close> and, after that,
  \<^verbatim>\<open>image.save\<close> and \<^verbatim>\<open>self.logger.info\<close> return. An image out of range is rejected
  whatever the libraries would do: the call returns and leaves no file, no hash and no
  log line; so it is for one less than the minimum by the minimum, and for one more than
  the maximum by the maximum. Exactly the minimum and exactly the maximum (square) are
  admitted when the minimum is not above the maximum and the save and the log line
  return.
\<close>

theorem dimension_check:
  assumes "passes_gate r" and "body r = Inr d"
    and "sha256_hexdigest L d |\<notin>| scraped_image_hashes h"
    and "image_open L d = Inr img" and "image_size L img = (w, ht)"
  shows "(admits L r h \<longleftrightarrow>
            (min_image_size h \<le> min w ht \<and> max w ht \<le> max_image_size h) \<and>
            (\<exists>enc. image_save L img = Inr enc) \<and>
            logger_info L (saved_line (req_url r) (sha256_hexdigest L d @ ''.jpg'')) = None) \<and>
         (\<not> (min_image_size h \<le> min w ht \<and> max w ht \<le> max_image_size h) \<longrightarrow>
            call L r h = (None, h\<lparr>body_reads := Suc (body_reads h)\<rparr>)) \<and>
         (w = min_image_size h - 1 \<and> ht = min_image_size h \<longrightarrow>
            call L r h = (None, h\<lparr>body_reads := Suc (body_reads h)\<rparr>)) \<and>
         (w = max_image_size h + 1 \<and> ht = max_image_size h \<longrightarrow>
            call L r h = (None, h\<lparr>body_reads := Suc (body_reads h)\<rparr>)) \<and>
         (min_image_size h \<le> max_image_size h \<and> w = min_image_size h \<and> ht = min_image_size h \<and>
          (\<exists>enc. image_save L img = Inr enc) \<and>
          logger_info L (saved_line (req_url r) (sha256_hexdigest L d @ ''.jpg'')) = None
            \<longrightarrow> admits L r h) \<and>
         (min_image_size h \<le> max_image_size h \<and> w = max_image_size h \<and> ht = max_image_size h \<and>
          (\<exists>enc. image_save L img = Inr enc) \<and>
          logger_info L (saved_line (req_url r) (sha256_hexdigest L d @ ''.jpg'')) = None
            \<longrightarrow> admits L r h)"
proof -
  have rng: "size_in_range h (image_size L img) \<longleftrightarrow>
      min_image_size h \<le> min w ht \<and> max w ht \<le> max_image_size h"
    by (simp add: size_in_range_def assms(5))
  have adm: "admits L r h \<longleftrightarrow>
      (min_image_size h \<le> min w ht \<and> max w ht \<le> max_image_size h) \<and>
      (\<exists>enc. image_save L img = Inr enc) \<and>
      logger_info L (saved_line (req_url r) (sha256_hexdigest L d @ ''.jpg'')) = None"
    using assms(1,2,3,4) by (auto simp: admits_iff rng)
  have rej: "call L r h = (None, h\<lparr>body_reads := Suc (body_reads h)\<rparr>)"
    if "\<not> (min_image_size h \<le> min w ht \<and> max w ht \<le> max_image_size h)"
  proof -
    from that have "\<not> size_in_range h (image_size L img)"
      by (simp add: rng)
    from call_out_of_range [OF assms(1,2,3,4) this] show ?thesis .
  qed
  have below: "\<not> (min_image_size h \<le> min w ht \<and> max w ht \<le> max_image_size h)"
    if "w = min_image_size h - 1 \<and> ht = min_image_size h"
    using that by auto
  have above: "\<not> (min_image_size h \<le> min w ht \<and> max w ht \<le> max_image_size h)"
    if "w = max_image_size h + 1 \<and> ht = max_image_size h"
    using that by auto
  show ?thesis
    using rej below above by (auto simp: adm)
qed

theorem dimension_check_witness:
  "admits toy_libs (jpeg_response [1, 1, 5]) toy_handler \<and>
   call toy_libs (jpeg_response [0, 1]) toy_handler = (None, toy_handler\<lparr>body_reads := 1\<rparr>) \<and>
   admits toy_libs (jpeg_response [4, 4, 0, 0, 0, 0, 0, 0, 0, 0, 0, 0, 0, 0, 0, 0, 0, 0]) toy_handler \<and>
   call toy_libs (jpeg_response [5, 4]) toy_handler = (None, toy_handler\<lparr>body_reads := 1\<rparr>)"
proof -
  have g: "passes_gate (jpeg_response d)" for d
    by (simp add: passes_gate_def toy_defs)
  have b: "body (jpeg_response d) = Inr d" for d
    by (simp add: jpeg_response_def)
  have n: "sha256_hexdigest toy_libs d |\<notin>| scraped_image_hashes toy_handler" for d
    by (simp add: toy_handler_def init_handler_def)
  have bounds: "min_image_size toy_handler = 1" "max_image_size toy_handler = 4"
    "body_reads toy_handler = 0"
    by (simp_all add: toy_handler_def init_handler_def)
  have lg: "logger_info toy_libs line = None" for line
    by (simp add: toy_libs_def)
  have o1: "image_open toy_libs [1, 1, 5] = Inr ((1, 1), [5])"
    and z1: "image_size toy_libs ((1, 1), [5]) = (1, 1)"
    and s1: "image_save toy_libs ((1, 1), [5]) = Inr [1, 1, 5]"
    by (simp_all add: toy_defs)
  have o2: "image_open toy_libs [0, 1] = Inr ((0, 1), [])"
    and z2: "image_size toy_libs ((0, 1), []) = (0, 1)"
    by (simp_all add: toy_defs)
  have o3: "image_open toy_libs [4, 4, 0, 0, 0, 0, 0, 0, 0, 0, 0, 0, 0, 0, 0, 0, 0, 0] =
      Inr ((4, 4), [0, 0, 0, 0, 0, 0, 0, 0, 0, 0, 0, 0, 0, 0, 0, 0])"
    and z3: "image_size toy_libs ((4, 4), [0, 0, 0, 0, 0, 0, 0, 0, 0, 0, 0, 0, 0, 0, 0, 0]) = (4, 4)"
    and s3: "image_save toy_libs ((4, 4), [0, 0, 0, 0, 0, 0, 0, 0, 0, 0, 0, 0, 0, 0, 0, 0]) =
      Inr [4, 4, 0, 0, 0, 0, 0, 0, 0, 0, 0, 0, 0, 0, 0, 0, 0, 0]"
    by (simp_all add: toy_defs)
  have o4: "image_open toy_libs [5, 4] = Inr ((5, 4), [])"
    and z4: "image_size toy_libs ((5, 4), []) = (5, 4)"
    by (simp_all add: toy_defs)
  show ?thesis
    using dimension_check [OF g b n o1 z1] dimension_check [OF g b n o2 z2]
      dimension_check [OF g b n o3 z3] dimension_check [OF g b n o4 z4]
      bounds lg s1 s3
    by simp
qed

subsection \<open>The three tests before the body\<close>

text \<open>
  C6: a response is admitted only if its method is \<^verbatim>\<open>GET\<close>, its url matches the
  pattern and its content type is \<^verbatim>\<open>image/jpeg\<close>; and \<^verbatim>\<open>response.body()\<close> is called
  only if all three hold. So a \<^verbatim>\<open>POST\<close>, a url that does not match, and a content type
  \<^verbatim>\<open>image/png\<close> are never admitted, whatever the rest of the response.
\<close>

theorem gate_before_body:
  "(admits L r h \<longrightarrow>
      req_method r = ''GET'' \<and> re_match pattern (req_url r) \<and>
      headers r ''content-type'' = Some ''image/jpeg'') \<and>
   (body_reads (snd (call L r h)) \<noteq> body_reads h \<longrightarrow>
      req_method r = ''GET'' \<and> re_match pattern (req_url r) \<and>
      headers r ''content-type'' = Some ''image/jpeg'') \<and>
   \<not> admits L (r\<lparr>req_method := ''POST''\<rparr>) h \<and>
   (\<not> re_match pattern (req_url r) \<longrightarrow> \<not> admits L r h) \<and>
   \<not> admits L (r\<lparr>headers := (headers r)(''content-type'' \<mapsto> ''image/png'')\<rparr>) h"
proof -
  have closed: "call L r' h = (None, h)" if "\<not> passes_gate r'" for r'
    using that by (rule call_gate_closed)
  have a: "passes_gate r'" if "admits L r' h" for r'
    using that by (simp add: admits_iff)
  have b: "passes_gate r" if "body_reads (snd (call L r h)) \<noteq> body_reads h"
    using that closed [of r] by (cases "passes_gate r") auto
  have p: "\<not> passes_gate (r\<lparr>req_method := ''POST''\<rparr>)"
    "\<not> passes_gate (r\<lparr>headers := (headers r)(''content-type'' \<mapsto> ''image/png'')\<rparr>)"
    by (simp_all add: passes_gate_def)
  show ?thesis
    using a [of r] b p a [of "r\<lparr>req_method := ''POST''\<rparr>"]
      a [of "r\<lparr>headers := (headers r)(''content-type'' \<mapsto> ''image/png'')\<rparr>"]
    by (auto simp: passes_gate_def)
qed

theorem gate_before_body_witness:
  "admits toy_libs (jpeg_response [2, 1, 7, 8]) toy_handler \<and>
   body_reads (snd (call toy_libs (jpeg_response [2, 1, 7, 8]) toy_handler)) = 1 \<and>
   body_reads toy_handler = 0 \<and>
   req_method (jpeg_response [2, 1, 7, 8]) = ''GET'' \<and>
   re_match pattern (req_url (jpeg_response [2, 1, 7, 8])) \<and>
   headers (jpeg_response [2, 1, 7, 8]) ''content-type'' = Some ''image/jpeg'' \<and>
   \<not> re_match pattern ''https://www.flickr.com/photos/1_a.jpg'' \<and>
   \<not> admits toy_libs ((jpeg_response [2, 1, 7, 8])\<lparr>req_url := ''https://www.flickr.com/photos/1_a.jpg''\<rparr>) toy_handler"
proof -
  have a: "admits toy_libs (jpeg_response [2, 1, 7, 8]) toy_handler"
    by (simp add: admits_def call_def toy_defs)
  have r: "body_reads (snd (call toy_libs (jpeg_response [2, 1, 7, 8]) toy_handler)) = 1"
    "body_reads toy_handler = 0"
    by (simp_all add: call_def toy_defs)
  have u: "\<not> re_match pattern ''https://www.flickr.com/photos/1_a.jpg''"
    by (simp add: pattern_def)
  show ?thesis
    using a r u gate_before_body [of toy_libs "jpeg_response [2, 1, 7, 8]" toy_handler]
      gate_before_body [of toy_libs "(jpeg_response [2, 1, 7, 8])\<lparr>req_url := ''https://www.flickr.com/photos/1_a.jpg''\<rparr>" toy_handler]
    by simp
qed

subsection \<open>The content type\<close>

text \<open>
  C10: the content type must be the string \<^verbatim>\<open>image/jpeg\<close> itself. With any other
  value, such as \<^verbatim>\<open>image/jpeg; charset=utf-8\<close> or \<^verbatim>\<open>Image/JPEG\<close>, and with no
  \<^verbatim>\<open>content-type\<close> header at all, the call returns without an exception and changes
  nothing.
\<close>

theorem content_type_exact:
  "(headers r ''content-type'' \<noteq> Some ''image/jpeg'' \<longrightarrow> call L r h = (None, h)) \<and>
   call L (r\<lparr>headers := (headers r)(''content-type'' \<mapsto> ''image/jpeg; charset=utf-8'')\<rparr>) h = (None, h) \<and>
   call L (r\<lparr>headers := (headers r)(''content-type'' \<mapsto> ''Image/JPEG'')\<rparr>) h = (None, h) \<and>
   call L (r\<lparr>headers := (headers r)(''content-type'' := None)\<rparr>) h = (None, h)"
proof -
  have "call L r' h = (None, h)" if "headers r' ''content-type'' \<noteq> Some ''image/jpeg''" for r'
    using that by (intro call_gate_closed) (simp add: passes_gate_def)
  then show ?thesis by simp
qed

theorem content_type_exact_witness:
  "headers ((jpeg_response [2, 1, 7, 8])\<lparr>headers := Map.empty\<rparr>) ''content-type'' = None \<and>
   call toy_libs ((jpeg_response [2, 1, 7, 8])\<lparr>headers := Map.empty\<rparr>) toy_handler = (None, toy_handler) \<and>
   admits toy_libs (jpeg_response [2, 1, 7, 8]) toy_handler"
proof -
  have a: "admits toy_libs (jpeg_response [2, 1, 7, 8]) toy_handler"
    by (simp add: admits_def call_def toy_defs)
  show ?thesis
    using a content_type_exact [of "(jpeg_response [2, 1, 7, 8])\<lparr>headers := Map.empty\<rparr>" toy_libs toy_handler]
    by simp
qed

section \<open>Properties of the loop\<close>

subsection \<open>One pass, and the unfolding of the loop\<close>

lemma scroll_choices_append: "scroll_choices (xs @ ys) = scroll_choices xs @ scroll_choices ys"
  by (induction xs rule: scroll_choices.induct) simp_all

lemma pause_durations_append: "pause_durations (xs @ ys) = pause_durations xs @ pause_durations ys"
  by (induction xs rule: pause_durations.induct) simp_all

lemma iteration_Inr_draw:
  assumes "iteration L G ev st = Inr st'"
  shows "\<exists>u g1 t g2. rng_random G (rng st) = (u, g1) \<and> rng_integers G 1000 2000 g1 = (t, g2) \<and>
           rng st' = g2 \<and>
           actions st' = actions st @ [if u < 0.75 then ScrollDown else ScrollUp] @
             (if load_more ev then [ClickLoadMore] else []) @ [Sleep t]"
  using assms unfolding iteration_def Let_def
  by (auto split: sum.splits prod.splits if_splits simp: page_call_Inr logger_call_Inr)

lemma iteration_no_raise:
  assumes "\<And>m. raises ev m = None"
  shows "\<exists>st'. iteration L G ev st = Inr st'"
  unfolding iteration_def Let_def
  by (auto split: sum.splits prod.splits if_splits
        simp: page_call_Inr page_call_Inl logger_call_Inr logger_call_Inl assms)

lemma iteration_wait_raises:
  "raises ev LogWaiting = None \<Longrightarrow> raises ev WaitForLoadState = Some e \<Longrightarrow>
     iteration L G ev st =
       Inl (e, st\<lparr>handler := deliver L (arrivals ev WaitForLoadState) (handler st)\<rparr>)"
  by (simp add: iteration_def page_call_def logger_call_def Let_def)

lemma loop_iterations_grow:
  "loop L G a sc st = Inr st' \<Longrightarrow> iterations st < iterations st'"
proof (induction L G a sc st rule: loop.induct)
  case (1 L G a sc st)
  from "1.prems" obtain s1 where it: "iteration L G (sc (iterations st)) st = Inr s1"
    by (subst (asm) loop.simps) (auto split: sum.splits)
  note n = iteration_Inr(3) [OF it]
  show ?case
  proof (cases "is_done a s1")
    case True
    with "1.prems" it have "st' = s1"
      by (subst (asm) loop.simps) simp
    with n show ?thesis by simp
  next
    case False
    with "1.prems" it have "loop L G a sc s1 = Inr st'"
      by (subst (asm) loop.simps) simp
    from "1.IH" [OF it False this] n show ?thesis by simp
  qed
qed

lemma loop_step_done:
  "iteration L G (sc (iterations st)) st = Inr s1 \<Longrightarrow> is_done a s1 \<Longrightarrow> loop L G a sc st = Inr s1"
  by (subst loop.simps) simp

lemma loop_step_again:
  "iteration L G (sc (iterations st)) st = Inr s1 \<Longrightarrow> \<not> is_done a s1 \<Longrightarrow>
     loop L G a sc st = loop L G a sc s1"
  by (subst loop.simps) simp

lemma loop_step_raise:
  "iteration L G (sc (iterations st)) st = Inl x \<Longrightarrow> loop L G a sc st = Inl x"
  by (subst loop.simps) simp

lemma no_progress_step:
  assumes np: "no_progress L sc st" and it: "iteration L G (sc (iterations st)) st = Inr s1"
  shows "scrape_counter (handler s1) = scrape_counter (handler st)"
    and "no_progress L sc s1"
    and "patience_counter s1 = patience_counter st + 1"
proof -
  note f = iteration_Inr [OF it]
  have h1: "handler s1 = handler_after L sc (iterations st) 1 (handler st)"
    by (simp add: f(1))
  show c: "scrape_counter (handler s1) = scrape_counter (handler st)"
    using np unfolding no_progress_def h1 by blast
  have "handler_after L sc (iterations s1) n (handler s1) =
        handler_after L sc (iterations st) (Suc n) (handler st)" for n
    by (simp add: f(1) f(3))
  then show "no_progress L sc s1"
    using np c unfolding no_progress_def by metis
  show "patience_counter s1 = patience_counter st + 1"
    using f(2) c by simp
qed

lemma patience_run:
  assumes "never_raises sc" and "no_progress L sc st"
    and "int (scrape_counter (handler st)) < number_of_images a"
    and "patience_counter st < patience a"
  shows "\<exists>st'. loop L G a sc st = Inr st' \<and>
           iterations st' = iterations st + nat (patience a - patience_counter st) \<and>
           patience_counter st' = patience a \<and>
           scrape_counter (handler st') = scrape_counter (handler st)"
  using assms
proof (induction L G a sc st rule: loop.induct)
  case (1 L G a sc st)
  from "1.prems"(1) obtain s1 where it: "iteration L G (sc (iterations st)) st = Inr s1"
    using iteration_no_raise [of "sc (iterations st)" L G st] unfolding never_raises_def by auto
  note s = no_progress_step [where sc = sc and st = st, OF "1.prems"(2) it]
  note n = iteration_Inr(3) [OF it]
  show ?case
  proof (cases "is_done a s1")
    case True
    then have "patience_counter st + 1 = patience a"
      using "1.prems"(3,4) s(1,3) by (auto simp: is_done_def)
    then show ?thesis
      using loop_step_done [where sc = sc and st = st, OF it True] s n by simp
  next
    case False
    then have lt: "patience_counter s1 < patience a"
      by (simp add: is_done_def)
    have "\<exists>st'. loop L G a sc s1 = Inr st' \<and>
           iterations st' = iterations s1 + nat (patience a - patience_counter s1) \<and>
           patience_counter st' = patience a \<and>
           scrape_counter (handler st') = scrape_counter (handler s1)"
      using "1.IH" [OF it False "1.prems"(1) s(2) _ lt] "1.prems"(3) s(1) by simp
    moreover have "iterations s1 + nat (patience a - patience_counter s1) =
        iterations st + nat (patience a - patience_counter st)"
      using lt n s(3) by simp
    ultimately show ?thesis
      using loop_step_again [where sc = sc and st = st, OF it False] s(1) by simp
  qed
qed

lemma single_pass:
  assumes "\<And>m. raises (sc (iterations st)) m = None"
    and "number_of_images a \<le> int (scrape_counter (handler st)) \<or>
         (no_progress L sc st \<and> patience a \<le> patience_counter st + 1)"
  shows "\<exists>st'. loop L G a sc st = Inr st' \<and> iterations st' = Suc (iterations st) \<and>
           handler st' = handler_after L sc (iterations st) 1 (handler st) \<and>
           length (actions st) < length (actions st')"
proof -
  obtain s1 where it: "iteration L G (sc (iterations st)) st = Inr s1"
    using iteration_no_raise [of "sc (iterations st)" L G st] assms(1) by auto
  note f = iteration_Inr [OF it]
  have mono: "scrape_counter (handler st) \<le> scrape_counter (handler s1)"
    by (simp add: f(1) deliver_counter_mono)
  have "is_done a s1"
    using assms(2)
  proof
    assume "number_of_images a \<le> int (scrape_counter (handler st))"
    with mono show ?thesis by (simp add: is_done_def)
  next
    assume np: "no_progress L sc st \<and> patience a \<le> patience_counter st + 1"
    then have "patience_counter s1 = patience_counter st + 1"
      using no_progress_step(3) [where sc = sc and st = st, OF _ it] by blast
    with np show ?thesis by (simp add: is_done_def)
  qed
  from loop_step_done [where sc = sc and st = st, OF it this] f(1,3) iteration_Inr_draw [OF it]
  show ?thesis by auto
qed

subsection \<open>Patience\<close>

lemma handler_after_quiet: "handler_after L quiet_script k n h = h"
  by (induction n arbitrary: k)
     (simp_all add: quiet_script_def quiet_page_def iteration_responses_def deliver_def)

lemma quiet_script_facts: "never_raises quiet_script" "no_progress L quiet_script st"
  by (simp_all add: never_raises_def no_progress_def handler_after_quiet quiet_script_def quiet_page_def)

text \<open>
  C4, as the specification states it: with no progress and a patience of \<open>N\<close> the loop
  makes exactly \<open>N\<close> passes, whatever the target. The test at the end of a pass also
  asks whether the counter has reached the target: with a target of 0 and a patience of 3
  the loop makes one pass.
\<close>

theorem target_reached_one_pass_counterexample:
  "never_raises quiet_script \<and> no_progress toy_libs quiet_script toy_start \<and>
   patience_counter toy_start = 0 \<and> patience (toy_args 0 3) = 3 \<and>
   map_sum id iterations (loop toy_libs toy_generator (toy_args 0 3) quiet_script toy_start) = Inr 1"
proof -
  have "map_sum id iterations (loop toy_libs toy_generator (toy_args 0 3) quiet_script toy_start) = Inr 1"
    by code_simp
  then show ?thesis
    by (simp add: quiet_script_facts toy_start_def toy_args_def)
qed

text \<open>
  C4, amended: if the counter never increases and no call of the pass raises, the loop
  entered with a patience counter of 0 returns, with the counter unchanged, after exactly
  \<open>N\<close> passes when \<open>N \<ge> 1\<close> and the target is above the counter (for all such targets
  alike); and after exactly one pass when the counter has already reached the target or
  \<open>N \<le> 1\<close>.
\<close>

theorem patience_termination:
  assumes "never_raises sc" and "no_progress L sc st" and "patience_counter st = 0"
  shows "\<exists>st'. loop L G a sc st = Inr st' \<and>
           iterations st' = iterations st +
             (if number_of_images a \<le> int (scrape_counter (handler st)) then 1
              else max 1 (nat (patience a))) \<and>
           scrape_counter (handler st') = scrape_counter (handler st)"
proof -
  have nr: "raises (sc (iterations st)) m = None" for m
    using assms(1) by (simp add: never_raises_def)
  have one: "scrape_counter (handler_after L sc (iterations st) 1 (handler st)) =
      scrape_counter (handler st)"
    using assms(2) unfolding no_progress_def by blast
  show ?thesis
  proof (cases "number_of_images a \<le> int (scrape_counter (handler st)) \<or> patience a \<le> 1")
    case True
    then have "number_of_images a \<le> int (scrape_counter (handler st)) \<or>
        (no_progress L sc st \<and> patience a \<le> patience_counter st + 1)"
      using assms(2,3) by auto
    from single_pass [where sc = sc and st = st, OF nr this, of G] one True
    show ?thesis by (auto simp: max_def)
  next
    case False
    then have "int (scrape_counter (handler st)) < number_of_images a"
      and "patience_counter st < patience a"
      using assms(3) by auto
    from patience_run [OF assms(1,2) this, of G] False assms(3)
    show ?thesis by (auto simp: max_def)
  qed
qed

theorem patience_termination_witness:
  "never_raises quiet_script \<and> no_progress toy_libs quiet_script toy_start \<and>
   patience_counter toy_start = 0 \<and> patience (toy_args 5 3) = 3 \<and>
   (\<exists>st'. loop toy_libs toy_generator (toy_args 5 3) quiet_script toy_start = Inr st' \<and>
      iterations st' = 3)"
proof -
  have p: "patience_counter toy_start = 0"
    by (simp add: toy_start_def)
  have v: "iterations toy_start = 0" "patience (toy_args 5 3) = 3"
    "number_of_images (toy_args 5 3) = 5" "scrape_counter (handler toy_start) = 0"
    by (simp_all add: toy_start_def toy_args_def toy_handler_def init_handler_def scrape_counter_def)
  from patience_termination [OF quiet_script_facts p, of toy_libs toy_generator "toy_args 5 3"] v p
  show ?thesis by (auto simp: quiet_script_facts)
qed

subsection \<open>A timeout of the wait for the network\<close>

text \<open>
  C7, as the specification states it: a timeout of the wait for network idle is not fatal
  and the pass goes on. \<^verbatim>\<open>page.wait_for_load_state\<close> raises on a timeout and the loop has
  no \<^verbatim>\<open>try\<close>: the exception ends \<^verbatim>\<open>main\<close>.
\<close>

theorem wait_timeout_ends_run_counterexample:
  "raises (stalled_script 0) LogWaiting = None \<and>
   raises (stalled_script 0) WaitForLoadState = Some TimeoutError \<and>
   main toy_libs toy_generator (toy_args 5 3) quiet_page stalled_script =
     Inl (TimeoutError, toy_start) \<and>
   actions toy_start = []"
  by code_simp

text \<open>
  C7, amended: when the wait for network idle at the start of a pass is reached and
  raises (a timeout), the exception leaves the loop and the run ends with it, in the
  state in which the pass was entered but for the responses handled during the wait:
  nothing more of the pass is carried out (no draw from the generator, no scroll, no
  click, no pause, no change of the patience counter), and the pass is not counted.
\<close>

theorem wait_timeout_aborts:
  "raises (sc (iterations st)) LogWaiting = None \<Longrightarrow>
   raises (sc (iterations st)) WaitForLoadState = Some e \<Longrightarrow>
     loop L G a sc st =
       Inl (e, st\<lparr>handler :=
                    deliver L (arrivals (sc (iterations st)) WaitForLoadState) (handler st)\<rparr>)"
  by (rule loop_step_raise) (rule iteration_wait_raises)

theorem wait_timeout_aborts_witness:
  "raises (stalled_script (iterations toy_start)) LogWaiting = None \<and>
   raises (stalled_script (iterations toy_start)) WaitForLoadState = Some TimeoutError \<and>
   loop toy_libs toy_generator (toy_args 5 3) stalled_script toy_start =
     Inl (TimeoutError, toy_start)"
proof -
  have q: "raises (stalled_script (iterations toy_start)) LogWaiting = None"
    by (simp add: stalled_script_def stalled_page_def quiet_page_def)
  have r: "raises (stalled_script (iterations toy_start)) WaitForLoadState = Some TimeoutError"
    by (simp add: stalled_script_def stalled_page_def)
  have d: "toy_start\<lparr>handler :=
      deliver toy_libs (arrivals (stalled_script (iterations toy_start)) WaitForLoadState)
        (handler toy_start)\<rparr> = toy_start"
    by (simp add: stalled_script_def stalled_page_def quiet_page_def deliver_def)
  from q r wait_timeout_aborts [where sc = stalled_script and st = toy_start, OF q r,
      of toy_libs toy_generator "toy_args 5 3"] d
  show ?thesis by simp
qed

subsection \<open>The first pass\<close>

text \<open>
  C9: the test for the end comes after the body. A loop that returns has completed at
  least one pass; and when the target is already reached on entry (a target of 0, say)
  and the calls of the first pass do not raise, the loop still carries out that pass, with
  its scroll and its pause, and returns after exactly one.
\<close>

theorem at_least_one_pass:
  "(loop L G a sc st = Inr st' \<longrightarrow> iterations st < iterations st') \<and>
   ((\<forall>m. raises (sc (iterations st)) m = None) \<and>
    number_of_images a \<le> int (scrape_counter (handler st)) \<longrightarrow>
      (\<exists>f. loop L G a sc st = Inr f \<and> iterations f = Suc (iterations st) \<and>
           length (actions st) < length (actions f)))"
proof -
  have "\<exists>f. loop L G a sc st = Inr f \<and> iterations f = Suc (iterations st) \<and>
           length (actions st) < length (actions f)"
    if "\<forall>m. raises (sc (iterations st)) m = None"
      and "number_of_images a \<le> int (scrape_counter (handler st))"
    using single_pass [where sc = sc and st = st and a = a and L = L and G = G] that by blast
  then show ?thesis
    using loop_iterations_grow [of L G a sc st st'] by blast
qed

theorem at_least_one_pass_witness:
  "number_of_images (toy_args 0 7) \<le> int (scrape_counter (handler toy_start)) \<and>
   (\<exists>f. loop toy_libs toy_generator (toy_args 0 7) quiet_script toy_start = Inr f \<and>
        iterations toy_start < iterations f \<and> iterations f = Suc (iterations toy_start) \<and>
        length (actions toy_start) < length (actions f))"
proof -
  have n: "\<forall>m. raises (quiet_script (iterations toy_start)) m = None"
    by (simp add: quiet_script_def quiet_page_def)
  have t: "number_of_images (toy_args 0 7) \<le> int (scrape_counter (handler toy_start))"
    by (simp add: toy_args_def)
  from n t at_least_one_pass [of toy_libs toy_generator "toy_args 0 7" quiet_script toy_start]
  show ?thesis by blast
qed

subsection \<open>The generator\<close>

lemma draws_length: "length (draws G g n) = n"
  by (induction n arbitrary: g) (simp_all add: Let_def split: prod.splits)

lemma draws_take: "N \<le> n \<Longrightarrow> take N (draws G g n) = draws G g N"
proof (induction N arbitrary: g n)
  case 0
  show ?case by simp
next
  case (Suc N)
  then obtain k where n: "n = Suc k" and le: "N \<le> k"
    by (cases n) auto
  show ?case
    using Suc.IH [OF le] by (simp add: n Let_def split: prod.splits)
qed

lemma draws_take_map:
  "N \<le> n \<Longrightarrow> take N (map h (draws G g n)) = map h (draws G g N)"
  by (simp add: take_map draws_take)

lemma draws_pause_range:
  assumes "\<And>g. 1000 \<le> fst (rng_integers G 1000 2000 g) \<and> fst (rng_integers G 1000 2000 g) < 2000"
  shows "t \<in> set (map snd (draws G g n)) \<Longrightarrow> 1000 \<le> t \<and> t < 2000"
proof (induction n arbitrary: g)
  case 0
  then show ?case by simp
next
  case (Suc n)
  obtain u g1 where r: "rng_random G g = (u, g1)" by (cases "rng_random G g")
  obtain t' g2 where i: "rng_integers G 1000 2000 g1 = (t', g2)"
    by (cases "rng_integers G 1000 2000 g1")
  from Suc.prems have "t = t' \<or> t \<in> set (map snd (draws G g2 n))"
    by (auto simp: r i)
  then show ?case
  proof
    assume "t = t'"
    with assms [of g1] i show ?thesis by simp
  next
    assume "t \<in> set (map snd (draws G g2 n))"
    then show ?thesis by (rule Suc.IH)
  qed
qed

lemma loop_choices:
  "loop L G a sc st = Inr f \<Longrightarrow>
     scroll_choices (actions f) =
       scroll_choices (actions st) @ map fst (draws G (rng st) (iterations f - iterations st)) \<and>
     pause_durations (actions f) =
       pause_durations (actions st) @ map snd (draws G (rng st) (iterations f - iterations st))"
proof (induction L G a sc st rule: loop.induct)
  case (1 L G a sc st)
  from "1.prems" obtain s1 where it: "iteration L G (sc (iterations st)) st = Inr s1"
    by (subst (asm) loop.simps) (auto split: sum.splits)
  note n = iteration_Inr(3) [OF it]
  from iteration_Inr_draw [OF it] obtain u g1 t g2 where
    d: "rng_random G (rng st) = (u, g1)" "rng_integers G 1000 2000 g1 = (t, g2)" "rng s1 = g2"
    and acts: "actions s1 = actions st @ [if u < 0.75 then ScrollDown else ScrollUp] @
             (if load_more (sc (iterations st)) then [ClickLoadMore] else []) @ [Sleep t]"
    by blast
  have c1: "scroll_choices (actions s1) =
      scroll_choices (actions st) @ [if u < 0.75 then ScrollDown else ScrollUp]"
    and p1: "pause_durations (actions s1) = pause_durations (actions st) @ [t]"
    by (simp_all add: acts scroll_choices_append pause_durations_append)
  have first: "draws G (rng st) (Suc k) =
      ((if u < 0.75 then ScrollDown else ScrollUp), t) # draws G (rng s1) k" for k
    by (simp add: d)
  show ?case
  proof (cases "is_done a s1")
    case True
    with "1.prems" it have "f = s1"
      by (subst (asm) loop.simps) simp
    then have "iterations f - iterations st = Suc 0"
      using n by simp
    then show ?thesis
      using c1 p1 \<open>f = s1\<close> by (simp add: first del: draws.simps(2))
  next
    case False
    with "1.prems" it have l: "loop L G a sc s1 = Inr f"
      by (subst (asm) loop.simps) simp
    from loop_iterations_grow [OF l] n
    have k: "iterations f - iterations st = Suc (iterations f - iterations s1)"
      by simp
    from "1.IH" [OF it False l] show ?thesis
      by (simp add: k first c1 p1 del: draws.simps(2))
  qed
qed

lemma main_Inr:
  assumes "main L G a nav sc = Inr f"
  shows "\<exists>st. loop L G a sc st = Inr f \<and> rng st = default_rng G (seed a) \<and>
           iterations st = 0 \<and> actions st = []"
  using assms unfolding main_def Let_def
  by (auto split: sum.splits simp: page_call_Inr logger_call_Inr)

lemma main_choices:
  assumes "main L G a nav sc = Inr f"
  shows "scroll_choices (actions f) = map fst (draws G (default_rng G (seed a)) (iterations f))"
    and "pause_durations (actions f) = map snd (draws G (default_rng G (seed a)) (iterations f))"
proof -
  from main_Inr [OF assms] obtain st where l: "loop L G a sc st = Inr f"
    and s: "rng st = default_rng G (seed a)" "iterations st = 0" "actions st = []"
    by blast
  from loop_choices [OF l] s
  show "scroll_choices (actions f) = map fst (draws G (default_rng G (seed a)) (iterations f))"
    and "pause_durations (actions f) = map snd (draws G (default_rng G (seed a)) (iterations f))"
    by simp_all
qed

text \<open>
  C8: the scroll directions and the pauses are a function of the seed. Two runs of
  \<^verbatim>\<open>main\<close> with the same seed (whatever their other arguments, their libraries and the
  behaviour of their pages) make the same scroll choices and the same pauses over any
  \<open>N\<close> passes that both complete: those that the generator seeded with the seed fixes, a
  scroll down exactly when \<^verbatim>\<open>rng.random()\<close> is below 0.75, and the pause that
  \<^verbatim>\<open>rng.integers(1000, 2000)\<close> gives, which lies in [1000, 2000) when the generator
  keeps to the bounds it is given.
\<close>

theorem deterministic_pacing:
  assumes "main L1 G a1 nav1 sc1 = Inr f1" and "main L2 G a2 nav2 sc2 = Inr f2"
    and "seed a1 = seed a2" and "N \<le> iterations f1" and "N \<le> iterations f2"
  shows "take N (scroll_choices (actions f1)) = take N (scroll_choices (actions f2)) \<and>
         take N (pause_durations (actions f1)) = take N (pause_durations (actions f2)) \<and>
         take N (scroll_choices (actions f1)) = map fst (draws G (default_rng G (seed a1)) N) \<and>
         take N (pause_durations (actions f1)) = map snd (draws G (default_rng G (seed a1)) N) \<and>
         ((\<forall>g. 1000 \<le> fst (rng_integers G 1000 2000 g) \<and> fst (rng_integers G 1000 2000 g) < 2000)
            \<longrightarrow> (\<forall>t \<in> set (pause_durations (actions f1)). 1000 \<le> t \<and> t < 2000))"
proof -
  note m1 = main_choices [OF assms(1)] and m2 = main_choices [OF assms(2)]
  have eqs: "take N (scroll_choices (actions f1)) = take N (scroll_choices (actions f2)) \<and>
         take N (pause_durations (actions f1)) = take N (pause_durations (actions f2)) \<and>
         take N (scroll_choices (actions f1)) = map fst (draws G (default_rng G (seed a1)) N) \<and>
         take N (pause_durations (actions f1)) = map snd (draws G (default_rng G (seed a1)) N)"
    by (simp add: m1 m2 assms(3,4,5) draws_take_map)
  have "1000 \<le> t \<and> t < 2000"
    if "\<forall>g. 1000 \<le> fst (rng_integers G 1000 2000 g) \<and> fst (rng_integers G 1000 2000 g) < 2000"
      and "t \<in> set (pause_durations (actions f1))" for t
    using draws_pause_range [of G t] that unfolding m1 by blast
  with eqs show ?thesis by blast
qed

theorem deterministic_pacing_witness:
  "seed (toy_args 5 3) = seed (toy_args 9 4) \<and>
   (\<exists>f1 f2. main toy_libs toy_generator (toy_args 5 3) quiet_page quiet_script = Inr f1 \<and>
      main toy_libs toy_generator (toy_args 9 4) busy_page busy_script = Inr f2 \<and>
      iterations f1 = 3 \<and> iterations f2 = 4 \<and>
      take 3 (scroll_choices (actions f1)) = take 3 (scroll_choices (actions f2)) \<and>
      take 3 (pause_durations (actions f1)) = take 3 (pause_durations (actions f2)) \<and>
      take 3 (scroll_choices (actions f1)) = [ScrollDown, ScrollUp, ScrollUp] \<and>
      take 3 (pause_durations (actions f1)) = [1305, 1915, 1549] \<and>
      (\<forall>t \<in> set (pause_durations (actions f1)). 1000 \<le> t \<and> t < 2000))"
proof -
  have "case main toy_libs toy_generator (toy_args 5 3) quiet_page quiet_script of
          Inl e \<Rightarrow> False | Inr f \<Rightarrow> iterations f = 3"
    by code_simp
  then obtain f1 where r1: "main toy_libs toy_generator (toy_args 5 3) quiet_page quiet_script = Inr f1"
    and n1: "iterations f1 = 3"
    by (auto split: sum.splits)
  have "case main toy_libs toy_generator (toy_args 9 4) busy_page busy_script of
          Inl e \<Rightarrow> False | Inr f \<Rightarrow> iterations f = 4"
    by code_simp
  then obtain f2 where r2: "main toy_libs toy_generator (toy_args 9 4) busy_page busy_script = Inr f2"
    and n2: "iterations f2 = 4"
    by (auto split: sum.splits)
  have s: "seed (toy_args 5 3) = seed (toy_args 9 4)"
    by (simp add: toy_args_def)
  have d: "draws toy_generator (default_rng toy_generator (seed (toy_args 5 3))) 3 =
      [(ScrollDown, 1305), (ScrollUp, 1915), (ScrollUp, 1549)]"
    by code_simp
  have le: "3 \<le> iterations f1" "3 \<le> iterations f2"
    by (simp_all add: n1 n2)
  note dp = deterministic_pacing [OF r1 r2 s le]
  from dp have e: "take 3 (scroll_choices (actions f1)) = take 3 (scroll_choices (actions f2))"
    "take 3 (pause_durations (actions f1)) = take 3 (pause_durations (actions f2))"
    by blast+
  have m: "map fst [(ScrollDown, 1305::int), (ScrollUp, 1915), (ScrollUp, 1549)] =
      [ScrollDown, ScrollUp, ScrollUp]"
    "map snd [(ScrollDown, 1305::int), (ScrollUp, 1915), (ScrollUp, 1549)] = [1305, 1915, 1549]"
    by simp_all
  from dp have v: "take 3 (scroll_choices (actions f1)) = [ScrollDown, ScrollUp, ScrollUp]"
    "take 3 (pause_durations (actions f1)) = [1305, 1915, 1549]"
    unfolding d m by blast+
  have g: "\<forall>g. 1000 \<le> fst (rng_integers toy_generator 1000 2000 g) \<and>
      fst (rng_integers toy_generator 1000 2000 g) < 2000"
    by (simp add: toy_generator_def)
  from dp g have b: "\<forall>t \<in> set (pause_durations (actions f1)). 1000 \<le> t \<and> t < 2000"
    by blast
  from s r1 r2 n1 n2 e v b show ?thesis by blast
qed

end
